theory Spec2Isabelle
  imports Main "HOL-Library.Sublist" "HOL-Library.Multiset" "HOL-Library.AList"
begin

section \<open>Strings\<close>

text \<open>
  Go strings are byte sequences; they are modelled as \<^typ>\<open>string\<close> (a list of
  \<^typ>\<open>char\<close>, one per byte).

  \<^verbatim>\<open>strings.Contains(s, substr)\<close> reports whether \<open>substr\<close> occurs in \<open>s\<close> as a
  contiguous block.
\<close>

definition strings_Contains :: "string \<Rightarrow> string \<Rightarrow> bool" where
  "strings_Contains s substr = sublist substr s"

text \<open>
  \<^verbatim>\<open>strings.Replace(s, old, new, -1)\<close>: every non-overlapping occurrence of \<open>old\<close>,
  found from left to right, is replaced by \<open>new\<close>; the search resumes after the
  occurrence, so the inserted text is not looked at again by the same call. With an empty
  \<open>old\<close> the library inserts \<open>new\<close> before every UTF-8 sequence and at the end; the
  model does so before every byte (the two agree on ASCII text; \<open>Transform\<close> never passes
  an empty \<open>old\<close>, a placeholder has at least three bytes).
\<close>

function strings_Replace :: "string \<Rightarrow> string \<Rightarrow> string \<Rightarrow> string" where
  "strings_Replace [] old new = (if old = [] then new else [])"
| "strings_Replace (c # cs) old new =
     (if old = [] then new @ c # strings_Replace cs old new
      else if prefix old (c # cs)
        then new @ strings_Replace (drop (length old) (c # cs)) old new
        else c # strings_Replace cs old new)"
  by pat_completeness auto
termination
  by (relation "measure (\<lambda>(s, old, new). length s)") (auto simp: Suc_diff_le)

section \<open>The regular expression library, as the transformer sees it\<close>

text \<open>
  The package \<^verbatim>\<open>regexp\<close> is Go's standard library, not part of the repository. The
  transformer uses three of its operations: \<^verbatim>\<open>regexp.Compile\<close>,
  \<^verbatim>\<open>(*Regexp).SubexpNames\<close> and \<^verbatim>\<open>(*Regexp).FindStringSubmatch\<close>.

  A compiled expression is a record of the names of its groups by index (index 0 is the
  whole expression and has the empty name, an unnamed group has the empty name too) and of
  its matcher. The matcher \<open>doExecute\<close> returns \<open>None\<close> when the expression matches nowhere
  in the input; otherwise the text of the leftmost match and of its groups, by index,
  where \<open>None\<close> stands for a group that took no part in the match (the library's \<open>-1\<close>
  index).
\<close>

record regexp =
  subexpNames :: "string list"
  doExecute :: "string \<Rightarrow> string option list option"

definition SubexpNames :: "regexp \<Rightarrow> string list" where
  "SubexpNames re = subexpNames re"

text \<open>
  \<^verbatim>\<open>FindStringSubmatch\<close> allocates one string per group (\<open>1 + numSubexp\<close> of them, the
  length of \<open>SubexpNames\<close>) and fills in the text of the groups that took part in the
  match; the others stay empty strings. \<open>nil\<close> is \<open>None\<close>.
\<close>

definition FindStringSubmatch :: "regexp \<Rightarrow> string \<Rightarrow> string list option" where
  "FindStringSubmatch re s =
     (case doExecute re s of
        None \<Rightarrow> None
      | Some a \<Rightarrow>
          Some (map (\<lambda>i. if i < length a then (case a ! i of Some txt \<Rightarrow> txt | None \<Rightarrow> []) else [])
                  [0 ..< length (subexpNames re)]))"

section \<open>A model of the library's matcher\<close>

text \<open>
  For the concrete scenarios the library itself is needed. This section models it for the
  part of the RE2 syntax that the repository's patterns use: literals, \<open>.\<close>, character
  classes with ranges and negation, the escapes \<open>\d \w \s\<close> and escaped punctuation,
  \<open>^\<close> and \<open>$\<close>, greedy \<open>* + ?\<close> and \<open>{n}\<close>, alternation, and capturing, named
  (\<open>(?P<name>...)\<close>) and non-capturing groups. A pattern outside this part is refused by
  the model with a diagnostic that says so. The theorems about \<open>NewPathTransformer\<close> and
  \<open>Transform\<close> that are stated for every compiler and every compiled expression do not
  depend on this section.

  The matcher follows the library's documented semantics: the match begins as early as
  possible in the input and, among the matches that begin there, is the one a
  backtracking search finds first (leftmost-first). \<open>step r st\<close> lists the states after
  \<open>r\<close> in the order in which a backtracking search reaches them; a state is the number
  of bytes consumed, the rest of the input and the text of the groups. An iteration of
  \<open>*\<close> that consumes nothing ends the loop. The model reads the input byte by byte,
  where the library reads UTF-8 sequences: the two agree on ASCII input.
\<close>

datatype re =
    Lit char
  | Dot
  | Class bool "(char \<times> char) list"
  | Bol
  | Eol
  | Eps
  | Cat re re
  | Alt re re
  | Star re
  | Group nat re

type_synonym mstate = "nat \<times> string \<times> string option list"

definition in_class :: "(char \<times> char) list \<Rightarrow> char \<Rightarrow> bool" where
  "in_class items c = (\<exists>(lo, hi) \<in> set items. (of_char lo :: nat) \<le> of_char c \<and> (of_char c :: nat) \<le> of_char hi)"

fun one :: "(char \<Rightarrow> bool) \<Rightarrow> mstate \<Rightarrow> mstate list" where
  "one p (i, [], g) = []"
| "one p (i, c # cs, g) = (if p c then [(Suc i, cs, g)] else [])"

fun step :: "re \<Rightarrow> mstate \<Rightarrow> mstate list" where
  "step (Lit c) st = one (\<lambda>x. x = c) st"
| "step Dot st = one (\<lambda>x. x \<noteq> CHR 0x0A) st"
| "step (Class neg items) st = one (\<lambda>x. in_class items x \<noteq> neg) st"
| "step Bol st = (if fst st = 0 then [st] else [])"
| "step Eol st = (if fst (snd st) = [] then [st] else [])"
| "step Eps st = [st]"
| "step (Cat a b) st = concat (map (step b) (step a st))"
| "step (Alt a b) st = step a st @ step b st"
| "step (Star a) st =
     concat (map (\<lambda>st'. if length (fst (snd st')) < length (fst (snd st)) then step (Star a) st' else [])
               (step a st)) @ [st]"
| "step (Group k a) st =
     map (\<lambda>st'. (fst st', fst (snd st'),
                  (snd (snd st'))[k := Some (take (fst st' - fst st) (fst (snd st)))]))
       (step a st)"

fun scan :: "re \<Rightarrow> nat \<Rightarrow> nat \<Rightarrow> string \<Rightarrow> string option list option" where
  "scan r n i [] =
     (case step r (i, [], replicate n None) of
        [] \<Rightarrow> None
      | st' # _ \<Rightarrow> Some ((snd (snd st'))[0 := Some []]))"
| "scan r n i (c # cs) =
     (case step r (i, c # cs, replicate n None) of
        [] \<Rightarrow> scan r n (Suc i) cs
      | st' # _ \<Rightarrow> Some ((snd (snd st'))[0 := Some (take (fst st' - i) (c # cs))]))"


text \<open>
  The parser reads the pattern byte by byte, with the rest of the pattern as lookahead.
  It keeps the group being built (its finished alternatives and the items of the current
  concatenation, both most recent first), the enclosing groups, and the names of the
  groups opened so far: the index of a capturing group is the rank of its opening
  parenthesis, and the same name may be given to several groups.
\<close>

fun cat_list :: "re list \<Rightarrow> re" where
  "cat_list [] = Eps"
| "cat_list [r] = r"
| "cat_list (r # rs) = Cat r (cat_list rs)"

fun alt_list :: "re list \<Rightarrow> re" where
  "alt_list [] = Eps"
| "alt_list [r] = r"
| "alt_list (r # rs) = Alt r (alt_list rs)"

fun rep :: "nat \<Rightarrow> re \<Rightarrow> re" where
  "rep 0 r = Eps"
| "rep (Suc 0) r = r"
| "rep (Suc n) r = Cat r (rep n r)"

datatype frame = Frame "nat option" "re list" "re list"

fun close_frame :: "frame \<Rightarrow> re" where
  "close_frame (Frame k alts cur) =
     (let body = alt_list (rev (cat_list (rev cur) # alts))
      in case k of None \<Rightarrow> body | Some i \<Rightarrow> Group i body)"

fun push_item :: "re \<Rightarrow> frame \<Rightarrow> frame" where
  "push_item r (Frame k alts cur) = Frame k alts (r # cur)"

datatype mode =
    Normal
  | Escape
  | Skip nat mode
  | GroupName string
  | ClassStart
  | ClassItems bool "(char \<times> char) list"
  | ClassDash bool char "(char \<times> char) list"
  | ClassEscape bool "(char \<times> char) list"
  | Count nat

record pstate =
  p_mode :: mode
  p_frame :: frame
  p_stack :: "frame list"
  p_names :: "string list"
  p_rep :: bool

definition between :: "char \<Rightarrow> char \<Rightarrow> char \<Rightarrow> bool" where
  "between lo hi c = ((of_char lo :: nat) \<le> of_char c \<and> (of_char c :: nat) \<le> of_char hi)"

definition is_digit :: "char \<Rightarrow> bool" where
  "is_digit c = between CHR ''0'' CHR ''9'' c"

definition is_word :: "char \<Rightarrow> bool" where
  "is_word c = (between CHR ''a'' CHR ''z'' c \<or> between CHR ''A'' CHR ''Z'' c \<or> is_digit c \<or> c = CHR ''_'')"

definition is_punct :: "char \<Rightarrow> bool" where
  "is_punct c = ((of_char c :: nat) < 128 \<and> \<not> is_word c)"

definition digit_items :: "(char \<times> char) list" where
  "digit_items = [(CHR ''0'', CHR ''9'')]"

definition word_items :: "(char \<times> char) list" where
  "word_items = [(CHR ''0'', CHR ''9''), (CHR ''A'', CHR ''Z''), (CHR ''_'', CHR ''_''), (CHR ''a'', CHR ''z'')]"

definition space_items :: "(char \<times> char) list" where
  "space_items = [(CHR 0x09, CHR 0x0A), (CHR 0x0C, CHR 0x0D), (CHR '' '', CHR '' '')]"

definition perl_class :: "char \<Rightarrow> (char \<times> char) list option" where
  "perl_class c =
     (if c = CHR ''d'' then Some digit_items
      else if c = CHR ''w'' then Some word_items
      else if c = CHR ''s'' then Some space_items
      else None)"

definition item :: "re \<Rightarrow> pstate \<Rightarrow> string + pstate" where
  "item r st = Inr (st\<lparr>p_mode := Normal, p_frame := push_item r (p_frame st), p_rep := False\<rparr>)"

definition repeat :: "(re \<Rightarrow> re) \<Rightarrow> pstate \<Rightarrow> string + pstate" where
  "repeat f st =
     (case p_frame st of Frame k alts cur \<Rightarrow>
        (case cur of
           [] \<Rightarrow> Inl ''missing argument to repetition operator''
         | r # rs \<Rightarrow>
             if p_rep st then Inl ''nested or non-greedy repetition: not modelled''
             else Inr (st\<lparr>p_mode := Normal, p_frame := Frame k alts (f r # rs), p_rep := True\<rparr>)))"

definition open_group :: "nat option \<Rightarrow> mode \<Rightarrow> pstate \<Rightarrow> string + pstate" where
  "open_group k m st =
     Inr (st\<lparr>p_mode := m, p_frame := Frame k [] [], p_stack := p_frame st # p_stack st,
             p_rep := False\<rparr>)"

definition normal_step :: "pstate \<Rightarrow> char \<Rightarrow> string \<Rightarrow> string + pstate" where
  "normal_step st c cs =
     (if c = CHR 0x5C then Inr (st\<lparr>p_mode := Escape\<rparr>)
      else if c = CHR ''('' then
        (if prefix ''?P<'' cs then Inr (st\<lparr>p_mode := Skip 3 (GroupName [])\<rparr>)
         else if prefix ''?<'' cs then Inr (st\<lparr>p_mode := Skip 2 (GroupName [])\<rparr>)
         else if prefix ''?:'' cs then open_group None (Skip 2 Normal) st
         else if prefix ''?'' cs then Inl ''group flags: not modelled''
         else open_group (Some (Suc (length (p_names st)))) Normal
                (st\<lparr>p_names := p_names st @ [[]]\<rparr>))
      else if c = CHR '')'' then
        (case p_stack st of
           [] \<Rightarrow> Inl ''unexpected )''
         | f # fs \<Rightarrow>
             Inr (st\<lparr>p_frame := push_item (close_frame (p_frame st)) f, p_stack := fs,
                     p_rep := False\<rparr>))
      else if c = CHR ''|'' then
        (case p_frame st of Frame k alts cur \<Rightarrow>
           Inr (st\<lparr>p_frame := Frame k (cat_list (rev cur) # alts) [], p_rep := False\<rparr>))
      else if c = CHR ''*'' then repeat Star st
      else if c = CHR ''+'' then repeat (\<lambda>r. Cat r (Star r)) st
      else if c = CHR ''?'' then repeat (\<lambda>r. Alt r Eps) st
      else if c = CHR ''{'' then
        (let ds = takeWhile is_digit cs; rest = dropWhile is_digit cs
         in if ds \<noteq> [] \<and> prefix ''}'' rest then Inr (st\<lparr>p_mode := Count 0\<rparr>)
            else if ds \<noteq> [] \<and> prefix '','' rest then Inl ''repetition range: not modelled''
            else item (Lit c) st)
      else if c = CHR ''['' then Inr (st\<lparr>p_mode := ClassStart\<rparr>)
      else if c = CHR ''.'' then item Dot st
      else if c = CHR ''^'' then item Bol st
      else if c = CHR ''$'' then item Eol st
      else item (Lit c) st)"

definition class_step :: "bool \<Rightarrow> (char \<times> char) list \<Rightarrow> pstate \<Rightarrow> char \<Rightarrow> string \<Rightarrow> string + pstate" where
  "class_step neg items st c cs =
     (if c = CHR '']'' \<and> items \<noteq> [] then item (Class neg (rev items)) st
      else if c = CHR 0x5C then Inr (st\<lparr>p_mode := ClassEscape neg items\<rparr>)
      else if c = CHR ''['' \<and> prefix '':'' cs then Inl ''named character class: not modelled''
      else if c = CHR ''-'' \<and> items \<noteq> [] \<and> \<not> prefix '']'' cs then
        (case items of
           (lo, hi) # items' \<Rightarrow>
             if lo = hi then Inr (st\<lparr>p_mode := ClassDash neg lo items'\<rparr>)
             else Inl ''invalid character class range''
         | [] \<Rightarrow> Inl ''invalid character class range'')
      else Inr (st\<lparr>p_mode := ClassItems neg ((c, c) # items)\<rparr>))"

fun pstep :: "mode \<Rightarrow> pstate \<Rightarrow> char \<Rightarrow> string \<Rightarrow> string + pstate" where
  "pstep Normal st c cs = normal_step st c cs"
| "pstep Escape st c cs =
     (case perl_class c of
        Some items \<Rightarrow> item (Class False items) st
      | None \<Rightarrow>
          (case perl_class (char_of (of_char c + (32::nat))) of
             Some items \<Rightarrow> item (Class True items) st
           | None \<Rightarrow> if is_punct c then item (Lit c) st else Inl ''escape sequence: not modelled''))"
| "pstep (Skip n m) st c cs =
     (case n of Suc (Suc k) \<Rightarrow> Inr (st\<lparr>p_mode := Skip (Suc k) m\<rparr>) | _ \<Rightarrow> Inr (st\<lparr>p_mode := m\<rparr>))"
| "pstep (GroupName acc) st c cs =
     (if c = CHR ''>'' then
        (if acc = [] then Inl ''invalid named capture''
         else open_group (Some (Suc (length (p_names st)))) Normal
                (st\<lparr>p_names := p_names st @ [acc]\<rparr>))
      else if is_word c then Inr (st\<lparr>p_mode := GroupName (acc @ [c])\<rparr>)
      else Inl ''invalid named capture'')"
| "pstep ClassStart st c cs =
     (if c = CHR ''^'' then Inr (st\<lparr>p_mode := ClassItems True []\<rparr>)
      else class_step False [] st c cs)"
| "pstep (ClassItems neg items) st c cs = class_step neg items st c cs"
| "pstep (ClassDash neg lo items) st c cs =
     (if c = CHR 0x5C then Inl ''escape in a class range: not modelled''
      else if (of_char lo :: nat) \<le> of_char c then Inr (st\<lparr>p_mode := ClassItems neg ((lo, c) # items)\<rparr>)
      else Inl ''invalid character class range'')"
| "pstep (ClassEscape neg items) st c cs =
     (case perl_class c of
        Some items' \<Rightarrow> Inr (st\<lparr>p_mode := ClassItems neg (rev items' @ items)\<rparr>)
      | None \<Rightarrow>
          if is_punct c then Inr (st\<lparr>p_mode := ClassItems neg ((c, c) # items)\<rparr>)
          else Inl ''escape sequence: not modelled'')"
| "pstep (Count n) st c cs =
     (if c = CHR ''}'' then repeat (rep n) st
      else if is_digit c then Inr (st\<lparr>p_mode := Count (10 * n + (of_char c - 48))\<rparr>)
      else Inl ''invalid repeat count'')"

fun parse :: "pstate \<Rightarrow> string \<Rightarrow> string + re \<times> string list" where
  "parse st [] =
     (if p_mode st \<noteq> Normal then Inl ''unexpected end of pattern''
      else if p_stack st \<noteq> [] then Inl ''missing closing )''
      else Inr (close_frame (p_frame st), p_names st))"
| "parse st (c # cs) =
     (case pstep (p_mode st) st c cs of
        Inl err \<Rightarrow> Inl err
      | Inr st' \<Rightarrow> parse st' cs)"

definition regexp_parse :: "string \<Rightarrow> string + re \<times> string list" where
  "regexp_parse pat =
     parse \<lparr>p_mode = Normal, p_frame = Frame None [] [], p_stack = [], p_names = [], p_rep = False\<rparr> pat"

definition execute :: "re \<Rightarrow> nat \<Rightarrow> string \<Rightarrow> string option list option" where
  "execute r n s = scan r n 0 s"

text \<open>\<^verbatim>\<open>regexp.Compile(expr)\<close> in the model.\<close>

definition regexp_Compile :: "string \<Rightarrow> string + regexp" where
  "regexp_Compile expr =
     (case regexp_parse expr of
        Inl err \<Rightarrow> Inl err
      | Inr (r, names) \<Rightarrow>
          Inr \<lparr>subexpNames = [] # names, doExecute = execute r (Suc (length names))\<rparr>)"

section \<open>The path transformer (package transform)\<close>

text \<open>
  The errors of the package are built with \<^verbatim>\<open>fmt.Errorf\<close>; the model names them by
  kind and keeps the text they carry. \<open>IndexOutOfRange\<close> is the run-time panic of a slice
  read beyond its length.
\<close>

datatype error =
    InvalidArguments
  | InvalidPattern string
  | TemplateUnused
  | NoMatch string
  | UnresolvedPlaceholder string
  | IndexOutOfRange

record PathTransformer =
  pattern :: regexp
  format :: string

text \<open>The placeholder of a name: \<^verbatim>\<open>"${" + name + "}"\<close>.\<close>

definition placeholder :: "string \<Rightarrow> string" where
  "placeholder name = ''${'' @ name @ ''}''"

text \<open>
  The validation loop of \<^verbatim>\<open>NewPathTransformer\<close>: the first non-empty name whose
  placeholder occurs in the format string sets the flag and leaves the loop.
\<close>

fun hasNamedGroup :: "string list \<Rightarrow> string \<Rightarrow> bool" where
  "hasNamedGroup [] fmt = False"
| "hasNamedGroup (name # names) fmt =
     (if name \<noteq> [] \<and> strings_Contains fmt (placeholder name) then True
      else hasNamedGroup names fmt)"

text \<open>
  \<^verbatim>\<open>NewPathTransformer(pattern, format)\<close>. The first argument is the library's
  \<^verbatim>\<open>regexp.Compile\<close>: it returns the compiled expression or its diagnostic.
\<close>

definition NewPathTransformer ::
  "(string \<Rightarrow> string + regexp) \<Rightarrow> string \<Rightarrow> string \<Rightarrow> error + PathTransformer" where
  "NewPathTransformer Compile pat fmt =
     (if pat = [] \<or> fmt = [] then Inl InvalidArguments
      else case Compile pat of
        Inl err \<Rightarrow> Inl (InvalidPattern err)
      | Inr re \<Rightarrow>
          if \<not> hasNamedGroup (SubexpNames re) fmt then Inl TemplateUnused
          else Inr \<lparr>pattern = re, format = fmt\<rparr>)"

text \<open>
  The map of named captures. A Go map is modelled as an association list with distinct
  keys; \<^verbatim>\<open>captures[name] = match[i]\<close> overwrites the value of a key that is already
  there. The loop runs over the group names with their index, skips index 0 and the
  unnamed groups, and reads \<^verbatim>\<open>match[i]\<close>.
\<close>

type_synonym captures = "(string \<times> string) list"

fun collect_captures :: "nat \<Rightarrow> string list \<Rightarrow> string list \<Rightarrow> captures \<Rightarrow> error + captures" where
  "collect_captures i [] match captures = Inr captures"
| "collect_captures i (name # names) match captures =
     (if i \<noteq> 0 \<and> name \<noteq> []
      then (if i < length match
            then collect_captures (Suc i) names match (AList.update name (match ! i) captures)
            else Inl IndexOutOfRange)
      else collect_captures (Suc i) names match captures)"

text \<open>
  The substitution loop \<^verbatim>\<open>for name, value := range captures\<close>: one
  \<^verbatim>\<open>strings.Replace\<close> per entry, applied to the running result.
\<close>

definition substitute :: "captures \<Rightarrow> string \<Rightarrow> string" where
  "substitute entries fmt =
     fold (\<lambda>(name, value) result. strings_Replace result (placeholder name) value) entries fmt"

text \<open>
  \<^verbatim>\<open>(*PathTransformer).Transform(path)\<close>. Go leaves the order in which \<open>range\<close>
  visits the entries of a map unspecified, and it varies from run to run: the order is the
  argument \<open>order\<close>, which maps the entries of the map to the sequence in which the loop
  sees them. It is an iteration order when it returns a permutation of the entries.
\<close>

definition iteration_order :: "(captures \<Rightarrow> captures) \<Rightarrow> bool" where
  "iteration_order order = (\<forall>m. mset (order m) = mset m)"

definition Transform ::
  "PathTransformer \<Rightarrow> (captures \<Rightarrow> captures) \<Rightarrow> string \<Rightarrow> error + string" where
  "Transform t order path =
     (case FindStringSubmatch (pattern t) path of
        None \<Rightarrow> Inl (NoMatch path)
      | Some match \<Rightarrow>
          (case collect_captures 0 (SubexpNames (pattern t)) match [] of
             Inl e \<Rightarrow> Inl e
           | Inr captures \<Rightarrow>
               (let result = substitute (order captures) (format t)
                in if strings_Contains result ''${'' \<and> strings_Contains result ''}''
                   then Inl (UnresolvedPlaceholder result)
                   else Inr result)))"

section \<open>The caller (package main)\<close>

text \<open>
  \<^verbatim>\<open>drive.FileInfo\<close>, and the loop of \<^verbatim>\<open>main\<close> that rewrites the paths of the files
  found before they are downloaded. The loop runs only when a transformer was built.
  The \<open>i\<close>-th call of \<open>Transform\<close> iterates over its map in the order \<open>order i\<close>. The
  lines the loop prints are not part of the model.
\<close>

record FileInfo =
  ID :: string
  Name :: string
  Path :: string
  MimeType :: string
  ModifiedTime :: string

function transform_loop ::
  "PathTransformer \<Rightarrow> (nat \<Rightarrow> captures \<Rightarrow> captures) \<Rightarrow> nat \<Rightarrow> FileInfo list \<Rightarrow> FileInfo list" where
  "transform_loop t order i files =
     (if i < length files
      then (case Transform t (order i) (Path (files ! i)) of
              Inl err \<Rightarrow> transform_loop t order (Suc i) files
            | Inr newPath \<Rightarrow>
                transform_loop t order (Suc i) (files[i := (files ! i)\<lparr>Path := newPath\<rparr>]))
      else files)"
  by pat_completeness auto
termination
  by (relation "measure (\<lambda>(t, order, i, files). length files - i)") auto

declare transform_loop.simps [simp del]

definition transform_file_paths ::
  "PathTransformer option \<Rightarrow> (nat \<Rightarrow> captures \<Rightarrow> captures) \<Rightarrow> FileInfo list \<Rightarrow> FileInfo list" where
  "transform_file_paths pathTransformer order files =
     (case pathTransformer of
        None \<Rightarrow> files
      | Some t \<Rightarrow> transform_loop t order 0 files)"

section \<open>The words of the specification\<close>

text \<open>
  The specification describes the text left over as "a \<open>${\<close> followed eventually by
  \<open>}\<close>". This is that description, as a function on strings: somewhere in the string
  there is \<open>${\<close>, and a \<open>}\<close> after it.
\<close>

fun placeholder_shaped :: "string \<Rightarrow> bool" where
  "placeholder_shaped [] = False"
| "placeholder_shaped (c # cs) =
     ((prefix ''${'' (c # cs) \<and> CHR ''}'' \<in> set (drop 1 cs)) \<or> placeholder_shaped cs)"

section \<open>Format strings whose placeholders are closed\<close>

text \<open>
  The substitution loop replaces one name after the other in the running result, so what
  a later pass finds depends on what the earlier passes inserted. The definitions of this
  section describe the strings on which the passes do not interfere. They are used in the
  statements and proofs below and have no counterpart in the source.

  A name is plain when it contains neither \<open>$\<close> nor \<open>}\<close> (the library only accepts
  letters, digits and \<open>_\<close> in a group name). In a string with closed dollars every \<open>$\<close>
  is followed by a \<open>}\<close> before the next \<open>$\<close> and before the end of the string; the
  flag of \<open>dollars_closed\<close> tells whether a \<open>$\<close> is waiting for its \<open>}\<close>. Such a string
  is a sequence of pieces of text without \<open>$\<close> and of holes \<open>$h}\<close>, where \<open>h\<close> contains
  neither \<open>$\<close> nor \<open>}\<close>; \<open>fill\<close> is what the whole loop does to a piece and \<open>fill_one\<close>
  what one pass does.
\<close>

definition plain_name :: "string \<Rightarrow> bool" where
  "plain_name n = (CHR ''$'' \<notin> set n \<and> CHR ''}'' \<notin> set n)"

fun dollars_closed :: "bool \<Rightarrow> string \<Rightarrow> bool" where
  "dollars_closed pending [] = (\<not> pending)"
| "dollars_closed pending (c # cs) =
     (if c = CHR ''$'' then \<not> pending \<and> dollars_closed True cs
      else if c = CHR ''}'' then dollars_closed False cs
      else dollars_closed pending cs)"

datatype token = Text string | Hole string

fun flatten :: "token list \<Rightarrow> string" where
  "flatten [] = []"
| "flatten (Text u # ts) = u @ flatten ts"
| "flatten (Hole h # ts) = CHR ''$'' # h @ CHR ''}'' # flatten ts"

fun wf_token :: "token \<Rightarrow> bool" where
  "wf_token (Text u) = (CHR ''$'' \<notin> set u)"
| "wf_token (Hole h) = (CHR ''$'' \<notin> set h \<and> CHR ''}'' \<notin> set h)"

fun fill :: "captures \<Rightarrow> token \<Rightarrow> token" where
  "fill entries (Text u) = Text u"
| "fill entries (Hole h) =
     (case h of
        [] \<Rightarrow> Hole h
      | c # n \<Rightarrow> if c = CHR ''{'' then (case map_of entries n of Some v \<Rightarrow> Text v | None \<Rightarrow> Hole h)
                 else Hole h)"

fun fill_one :: "string \<Rightarrow> string \<Rightarrow> token \<Rightarrow> token" where
  "fill_one n v (Text u) = Text u"
| "fill_one n v (Hole h) = (if h = CHR ''{'' # n then Text v else Hole h)"


section \<open>Transformers used as examples\<close>

text \<open>
  Each of them is what \<open>NewPathTransformer\<close> returns, with the model of the library as
  compiler, on the pattern and the format string it is made of (\<open>examples_are_compiled\<close>
  and \<open>New_nested\<close> below): \<open>(?P<a>x)\<close> with \<open>}${a}${\<close>, \<open>${a}.txt\<close> and \<open>${a}${\<close>,
  \<open>(?P<a>.*)-(?P<b>.*)\<close> with \<open>${a}\<close>, and \<open>(?P<a>x)|(?P<b>y)\<close> with \<open>${a}${b}\<close>.
\<close>

definition group_a_x :: regexp where
  "group_a_x = \<lparr>subexpNames = [[], ''a''], doExecute = execute (Group 1 (Lit CHR ''x'')) 2\<rparr>"

definition stray_brace :: PathTransformer where
  "stray_brace = \<lparr>pattern = group_a_x, format = ''}${a}${''\<rparr>"

definition only_a :: PathTransformer where
  "only_a = \<lparr>pattern = group_a_x, format = ''${a}.txt''\<rparr>"

definition open_brace :: PathTransformer where
  "open_brace = \<lparr>pattern = group_a_x, format = ''${a}${''\<rparr>"

definition group_a_b :: regexp where
  "group_a_b = \<lparr>subexpNames = [[], ''a'', ''b''],
     doExecute = execute (Cat (Group 1 (Star Dot)) (Cat (Lit CHR ''-'') (Group 2 (Star Dot)))) 3\<rparr>"

definition nested :: PathTransformer where
  "nested = \<lparr>pattern = group_a_b, format = ''${a}''\<rparr>"

definition either_a_b :: regexp where
  "either_a_b = \<lparr>subexpNames = [[], ''a'', ''b''],
     doExecute = execute (Alt (Group 1 (Lit CHR ''x'')) (Group 2 (Lit CHR ''y''))) 3\<rparr>"

definition either :: PathTransformer where
  "either = \<lparr>pattern = either_a_b, format = ''${a}${b}''\<rparr>"


section \<open>Basic facts\<close>

lemma hasNamedGroup_iff:
  "hasNamedGroup names fmt \<longleftrightarrow> (\<exists>g\<in>set names. g \<noteq> [] \<and> strings_Contains fmt (placeholder g))"
  by (induction names) auto

lemma length_FindStringSubmatch:
  "FindStringSubmatch re s = Some m \<Longrightarrow> length m = length (SubexpNames re)"
  by (auto simp: FindStringSubmatch_def SubexpNames_def split: option.splits)

lemma FindStringSubmatch_None: "FindStringSubmatch re s = None \<longleftrightarrow> doExecute re s = None"
  by (simp add: FindStringSubmatch_def split: option.splits)

lemma collect_captures_total:
  "i + length names \<le> length m \<Longrightarrow> \<exists>caps. collect_captures i names m acc = Inr caps"
  by (induction names arbitrary: i acc) auto

lemma collect_captures_after_match:
  assumes "FindStringSubmatch (pattern t) x = Some m"
  shows "\<exists>caps. collect_captures 0 (SubexpNames (pattern t)) m [] = Inr caps"
  using collect_captures_total [of 0 "SubexpNames (pattern t)" m "[]"]
    length_FindStringSubmatch [OF assms] by simp

lemma collect_captures_error:
  "collect_captures i names m acc = Inl e \<Longrightarrow> e = IndexOutOfRange"
  by (induction names arbitrary: i acc) (auto split: if_splits)

lemma Transform_after_match:
  assumes "FindStringSubmatch (pattern t) x = Some m"
    and "collect_captures 0 (SubexpNames (pattern t)) m [] = Inr caps"
  shows "Transform t order x =
           (if strings_Contains (substitute (order caps) (format t)) ''${'' \<and>
               strings_Contains (substitute (order caps) (format t)) ''}''
            then Inl (UnresolvedPlaceholder (substitute (order caps) (format t)))
            else Inr (substitute (order caps) (format t)))"
  using assms by (simp add: Transform_def Let_def)

lemma parse_group_a_x: "regexp_parse ''(?P<a>x)'' = Inr (Group 1 (Lit CHR ''x''), [''a''])"
  by code_simp

lemma Compile_group_a_x: "regexp_Compile ''(?P<a>x)'' = Inr group_a_x"
  by (simp add: regexp_Compile_def parse_group_a_x group_a_x_def numeral_2_eq_2)

lemma Contains_single: "strings_Contains s [c] \<longleftrightarrow> c \<in> set s"
  by (induction s) (auto simp: strings_Contains_def sublist_Cons_right)

lemma placeholder_shaped_iff:
  "placeholder_shaped s \<longleftrightarrow> (\<exists>u v w. s = u @ ''${'' @ v @ ''}'' @ w)"
proof (induction s)
  case Nil
  then show ?case by simp
next
  case (Cons c cs)
  show ?case
  proof
    assume "placeholder_shaped (c # cs)"
    then consider "prefix ''${'' (c # cs)" "CHR ''}'' \<in> set (drop 1 cs)" | "placeholder_shaped cs"
      by auto
    then show "\<exists>u v w. c # cs = u @ ''${'' @ v @ ''}'' @ w"
    proof cases
      case 1
      from 1(1) obtain r where r: "c # cs = ''${'' @ r"
        by (auto simp: prefix_def)
      with 1(2) have "CHR ''}'' \<in> set r" by auto
      then obtain v w where "r = v @ CHR ''}'' # w"
        by (auto simp: in_set_conv_decomp)
      with r have "c # cs = [] @ ''${'' @ v @ ''}'' @ w" by simp
      then show ?thesis by blast
    next
      case 2
      with Cons.IH obtain u v w where "cs = u @ ''${'' @ v @ ''}'' @ w" by blast
      then have "c # cs = (c # u) @ ''${'' @ v @ ''}'' @ w" by simp
      then show ?thesis by blast
    qed
  next
    assume "\<exists>u v w. c # cs = u @ ''${'' @ v @ ''}'' @ w"
    then obtain u v w where eq: "c # cs = u @ ''${'' @ v @ ''}'' @ w" by blast
    show "placeholder_shaped (c # cs)"
    proof (cases u)
      case Nil
      with eq have "prefix ''${'' (c # cs)" "CHR ''}'' \<in> set (drop 1 cs)"
        by (auto simp: prefix_def)
      then show ?thesis by simp
    next
      case (Cons a u')
      with eq have "cs = u' @ ''${'' @ v @ ''}'' @ w" by simp
      with Cons.IH have "placeholder_shaped cs" by blast
      then show ?thesis by simp
    qed
  qed
qed

section \<open>The substitution loop on format strings with closed dollars\<close>

lemma tokens_exist:
  "(dollars_closed False s \<longrightarrow> (\<exists>ts. list_all wf_token ts \<and> flatten ts = s)) \<and>
   (dollars_closed True s \<longrightarrow>
      (\<exists>h ts. list_all wf_token (Hole h # ts) \<and> h @ CHR ''}'' # flatten ts = s))"
proof (induction s)
  case Nil
  have "list_all wf_token [] \<and> flatten [] = []" by simp
  then have "\<exists>ts. list_all wf_token ts \<and> flatten ts = []" by blast
  then show ?case by simp
next
  case (Cons c cs)
  show ?case
  proof (intro conjI impI)
    assume a: "dollars_closed False (c # cs)"
    show "\<exists>ts. list_all wf_token ts \<and> flatten ts = c # cs"
    proof (cases "c = CHR ''$''")
      case True
      with a Cons.IH obtain h ts where "list_all wf_token (Hole h # ts)" "h @ CHR ''}'' # flatten ts = cs"
        by auto
      with True have "list_all wf_token (Hole h # ts) \<and> flatten (Hole h # ts) = c # cs" by simp
      then show ?thesis by blast
    next
      case False
      with a have "dollars_closed False cs" by (simp split: if_splits)
      with Cons.IH obtain ts where "list_all wf_token ts" "flatten ts = cs" by auto
      with False have "list_all wf_token (Text [c] # ts) \<and> flatten (Text [c] # ts) = c # cs" by simp
      then show ?thesis by blast
    qed
  next
    assume a: "dollars_closed True (c # cs)"
    then have c: "c \<noteq> CHR ''$''" by (auto split: if_splits)
    show "\<exists>h ts. list_all wf_token (Hole h # ts) \<and> h @ CHR ''}'' # flatten ts = c # cs"
    proof (cases "c = CHR ''}''")
      case True
      with a have "dollars_closed False cs" by simp
      with Cons.IH obtain ts where "list_all wf_token ts" "flatten ts = cs" by auto
      with True have "list_all wf_token (Hole [] # ts) \<and> [] @ CHR ''}'' # flatten ts = c # cs" by simp
      then show ?thesis by blast
    next
      case False
      with a c have "dollars_closed True cs" by simp
      with Cons.IH obtain h ts where "list_all wf_token (Hole h # ts)" "h @ CHR ''}'' # flatten ts = cs"
        by auto
      with False c have "list_all wf_token (Hole (c # h) # ts) \<and> (c # h) @ CHR ''}'' # flatten ts = c # cs"
        by simp
      then show ?thesis by blast
    qed
  qed
qed

lemma placeholder_Cons: "placeholder n = CHR ''$'' # CHR ''{'' # n @ ''}''"
  by (simp add: placeholder_def)

lemma Replace_skip:
  "CHR ''$'' \<notin> set u \<Longrightarrow>
   strings_Replace (u @ w) (placeholder n) v = u @ strings_Replace w (placeholder n) v"
  by (induction u) (auto simp: placeholder_Cons)

lemma prefix_up_to_mark:
  "x \<notin> set a \<Longrightarrow> x \<notin> set b \<Longrightarrow> prefix (a @ [x]) (b @ x # w) \<longleftrightarrow> a = b"
proof (induction a arbitrary: b)
  case Nil
  then show ?case by (cases b) auto
next
  case (Cons y a)
  then show ?case by (cases b) auto
qed

lemma prefix_placeholder_Hole:
  assumes "plain_name n" and "CHR ''}'' \<notin> set h"
  shows "prefix (placeholder n) (CHR ''$'' # h @ CHR ''}'' # w) \<longleftrightarrow> h = CHR ''{'' # n"
proof -
  have "prefix ((CHR ''{'' # n) @ [CHR ''}'']) (h @ CHR ''}'' # w) \<longleftrightarrow> CHR ''{'' # n = h"
    using assms by (intro prefix_up_to_mark) (auto simp: plain_name_def)
  then show ?thesis by (auto simp: placeholder_Cons)
qed

lemma Replace_flatten:
  assumes "plain_name n" and "list_all wf_token ts"
  shows "strings_Replace (flatten ts) (placeholder n) v = flatten (map (fill_one n v) ts)"
  using assms(2)
proof (induction ts)
  case Nil
  then show ?case by (simp add: placeholder_Cons)
next
  case (Cons t ts)
  show ?case
  proof (cases t)
    case (Text u)
    with Cons show ?thesis by (simp add: Replace_skip)
  next
    case (Hole h)
    with Cons.prems have h: "CHR ''$'' \<notin> set h" "CHR ''}'' \<notin> set h" and ts: "list_all wf_token ts"
      by simp_all
    note p = prefix_placeholder_Hole [OF assms(1) h(2), of "flatten ts"]
    show ?thesis
    proof (cases "h = CHR ''{'' # n")
      case True
      have "strings_Replace (CHR ''$'' # h @ CHR ''}'' # flatten ts) (placeholder n) v =
            v @ strings_Replace (drop (length (placeholder n)) (CHR ''$'' # h @ CHR ''}'' # flatten ts))
                  (placeholder n) v"
        using p True by (simp add: placeholder_Cons)
      also have "drop (length (placeholder n)) (CHR ''$'' # h @ CHR ''}'' # flatten ts) = flatten ts"
        using True by (simp add: placeholder_Cons)
      finally show ?thesis using Hole True Cons.IH [OF ts] by simp
    next
      case False
      have "strings_Replace (CHR ''$'' # h @ CHR ''}'' # flatten ts) (placeholder n) v =
            CHR ''$'' # strings_Replace ((h @ ''}'') @ flatten ts) (placeholder n) v"
        using p False by (simp add: placeholder_Cons)
      also have "strings_Replace ((h @ ''}'') @ flatten ts) (placeholder n) v =
                 (h @ ''}'') @ strings_Replace (flatten ts) (placeholder n) v"
        using h by (intro Replace_skip) simp
      finally show ?thesis using Hole False Cons.IH [OF ts] by simp
    qed
  qed
qed

lemma wf_fill_one:
  "CHR ''$'' \<notin> set v \<Longrightarrow> list_all wf_token ts \<Longrightarrow> list_all wf_token (map (fill_one n v) ts)"
  by (induction ts) (auto elim: wf_token.elims simp: list_all_iff)

lemma fill_fill_one: "fill rest (fill_one n v t) = fill ((n, v) # rest) t"
  by (cases t) (auto split: list.splits option.splits)

lemma substitute_flatten:
  assumes "\<forall>(n, v)\<in>set entries. plain_name n \<and> CHR ''$'' \<notin> set v"
    and "list_all wf_token ts"
  shows "substitute entries (flatten ts) = flatten (map (fill entries) ts)"
  using assms
proof (induction entries arbitrary: ts)
  case Nil
  have "fill [] t = t" for t
    by (cases t) (auto split: list.splits)
  then have "map (fill []) ts = ts"
    by (simp add: map_idI)
  then show ?case by (simp add: substitute_def)
next
  case (Cons e entries)
  obtain n v where e: "e = (n, v)" by (cases e)
  with Cons.prems have n: "plain_name n" and v: "CHR ''$'' \<notin> set v"
    and rest: "\<forall>(n, v)\<in>set entries. plain_name n \<and> CHR ''$'' \<notin> set v"
    by auto
  have "substitute (e # entries) (flatten ts) =
        substitute entries (strings_Replace (flatten ts) (placeholder n) v)"
    by (simp add: substitute_def e)
  also have "\<dots> = substitute entries (flatten (map (fill_one n v) ts))"
    by (simp add: Replace_flatten [OF n Cons.prems(2)])
  also have "\<dots> = flatten (map (fill entries) (map (fill_one n v) ts))"
    by (rule Cons.IH [OF rest wf_fill_one [OF v Cons.prems(2)]])
  finally show ?case by (simp add: e fill_fill_one comp_def)
qed


lemma fill_cong: "map_of entries' = map_of entries \<Longrightarrow> fill entries' t = fill entries t"
  by (cases t) (auto split: list.splits)

lemma substitute_any_order:
  assumes perm: "mset entries' = mset entries"
    and dist: "distinct (map fst entries)"
    and ok: "\<forall>(n, v)\<in>set entries. plain_name n \<and> CHR ''$'' \<notin> set v"
    and closed: "dollars_closed False fmt"
  shows "substitute entries' fmt = substitute entries fmt"
proof -
  from closed tokens_exist [of fmt] obtain ts where ts: "list_all wf_token ts" "flatten ts = fmt"
    by blast
  have set_eq: "set entries' = set entries"
    using perm by (rule mset_eq_setD)
  have "mset (map fst entries') = mset (map fst entries)"
    using perm by simp
  from mset_eq_imp_distinct_iff [OF this] dist have dist': "distinct (map fst entries')"
    by blast
  have "map_of entries' = map_of entries"
    using dist dist' set_eq by (simp add: map_of_inject_set)
  then have f: "fill entries' t = fill entries t" for t
    by (rule fill_cong)
  have fe: "map (fill entries') ts = map (fill entries) ts"
    by (rule map_cong [OF refl]) (rule f)
  have ok': "\<forall>(n, v)\<in>set entries'. plain_name n \<and> CHR ''$'' \<notin> set v"
    using ok unfolding set_eq .
  have "substitute entries' fmt = flatten (map (fill entries') ts)"
    using substitute_flatten [OF ok' ts(1)] unfolding ts(2) .
  also have "\<dots> = flatten (map (fill entries) ts)"
    by (simp only: fe)
  also have "\<dots> = substitute entries fmt"
    using substitute_flatten [OF ok ts(1)] unfolding ts(2) by (rule sym)
  finally show ?thesis .
qed

lemma values_update: "snd ` set (AList.update k v al) \<subseteq> insert v (snd ` set al)"
  by (induction al) auto

lemma collect_captures_step:
  assumes "collect_captures i (name # names) m acc = Inr caps"
  obtains "\<not> (i \<noteq> 0 \<and> name \<noteq> [])" and "collect_captures (Suc i) names m acc = Inr caps"
  | "i \<noteq> 0" and "name \<noteq> []" and "i < length m"
    and "collect_captures (Suc i) names m (AList.update name (m ! i) acc) = Inr caps"
proof (cases "i = 0")
  case True
  with assms have "collect_captures (Suc i) names m acc = Inr caps" by simp
  with True that(1) show ?thesis by blast
next
  case i: False
  show ?thesis
  proof (cases "name = []")
    case True
    with assms have "collect_captures (Suc i) names m acc = Inr caps" by simp
    with True that(1) show ?thesis by blast
  next
    case False
    with i assms have "i < length m" by (simp split: if_splits)
    with i False assms that(2) show ?thesis by simp
  qed
qed

lemma collect_captures_distinct:
  "collect_captures i names m acc = Inr caps \<Longrightarrow> distinct (map fst acc) \<Longrightarrow>
   distinct (map fst caps)"
proof (induction names arbitrary: i acc)
  case Nil
  then show ?case by simp
next
  case (Cons name names)
  from Cons.prems(1) show ?case
  proof (cases rule: collect_captures_step)
    case 1
    from Cons.IH [OF 1(2) Cons.prems(2)] show ?thesis .
  next
    case 2
    from Cons.IH [OF 2(4) distinct_update [OF Cons.prems(2)]] show ?thesis .
  qed
qed

lemma collect_captures_keys:
  "collect_captures i names m acc = Inr caps \<Longrightarrow> fst ` set caps \<subseteq> fst ` set acc \<union> set names"
proof (induction names arbitrary: i acc)
  case Nil
  then show ?case by simp
next
  case (Cons name names)
  from Cons.prems(1) show ?case
  proof (cases rule: collect_captures_step)
    case 1
    from Cons.IH [OF 1(2)] show ?thesis by auto
  next
    case 2
    from Cons.IH [OF 2(4)] have "fst ` set caps \<subseteq> ({name} \<union> fst ` set acc) \<union> set names"
      by (simp only: dom_update)
    then show ?thesis by auto
  qed
qed

lemma subset_step: "C \<subseteq> U \<union> M \<Longrightarrow> U \<subseteq> insert x A \<Longrightarrow> x \<in> M \<Longrightarrow> C \<subseteq> A \<union> M"
  by blast

lemma collect_captures_values:
  "collect_captures i names m acc = Inr caps \<Longrightarrow> snd ` set caps \<subseteq> snd ` set acc \<union> set m"
proof (induction names arbitrary: i acc)
  case Nil
  then show ?case by simp
next
  case (Cons name names)
  from Cons.prems(1) show ?case
  proof (cases rule: collect_captures_step)
    case 1
    from Cons.IH [OF 1(2)] show ?thesis .
  next
    case 2
    have "m ! i \<in> set m" using 2(3) by simp
    then show ?thesis
      by (rule subset_step [OF Cons.IH [OF 2(4)] values_update])
  qed
qed








lemma iteration_order_id: "iteration_order id"
  by (simp add: iteration_order_def)


lemma captures_after_match:
  assumes m: "FindStringSubmatch (pattern t) x = Some m"
    and names: "\<forall>n\<in>set (SubexpNames (pattern t)). plain_name n"
    and vals: "\<forall>v\<in>set m. CHR ''$'' \<notin> set v"
  obtains caps where "collect_captures 0 (SubexpNames (pattern t)) m [] = Inr caps"
    and "distinct (map fst caps)"
    and "\<forall>(n, v)\<in>set caps. plain_name n \<and> CHR ''$'' \<notin> set v"
proof -
  from collect_captures_after_match [OF m]
  obtain caps where caps: "collect_captures 0 (SubexpNames (pattern t)) m [] = Inr caps"
    by blast
  have d: "distinct (map fst caps)"
    using collect_captures_distinct [OF caps] by simp
  have k: "fst ` set caps \<subseteq> set (SubexpNames (pattern t))"
    using collect_captures_keys [OF caps] by simp
  have v: "snd ` set caps \<subseteq> set m"
    using collect_captures_values [OF caps] by simp
  have "plain_name n \<and> CHR ''$'' \<notin> set v" if "(n, v) \<in> set caps" for n v
  proof -
    from that have "n \<in> fst ` set caps" "v \<in> snd ` set caps" by force+
    with k v names vals show ?thesis by blast
  qed
  then have "\<forall>(n, v)\<in>set caps. plain_name n \<and> CHR ''$'' \<notin> set v" by blast
  with caps d that show ?thesis by blast
qed

lemma Transform_any_order:
  assumes m: "FindStringSubmatch (pattern t) x = Some m"
    and names: "\<forall>n\<in>set (SubexpNames (pattern t)). plain_name n"
    and vals: "\<forall>v\<in>set m. CHR ''$'' \<notin> set v"
    and closed: "dollars_closed False (format t)"
    and order: "iteration_order order"
  shows "Transform t order x = Transform t id x"
proof -
  from captures_after_match [OF m names vals]
  obtain caps where caps: "collect_captures 0 (SubexpNames (pattern t)) m [] = Inr caps"
    and d: "distinct (map fst caps)"
    and ok: "\<forall>(n, v)\<in>set caps. plain_name n \<and> CHR ''$'' \<notin> set v"
    by blast
  from order have "mset (order caps) = mset caps"
    by (simp add: iteration_order_def)
  from substitute_any_order [OF this d ok closed]
  have "substitute (order caps) (format t) = substitute (id caps) (format t)" by simp
  then show ?thesis
    by (simp only: Transform_after_match [OF m caps])
qed




lemma parse_either_a_b:
  "regexp_parse ''(?P<a>x)|(?P<b>y)'' =
     Inr (Alt (Group 1 (Lit CHR ''x'')) (Group 2 (Lit CHR ''y'')), [''a'', ''b''])"
  by code_simp

lemma Compile_either_a_b: "regexp_Compile ''(?P<a>x)|(?P<b>y)'' = Inr either_a_b"
  by (simp add: regexp_Compile_def parse_either_a_b either_a_b_def numeral_3_eq_3)

lemma examples_are_compiled:
  "NewPathTransformer regexp_Compile ''(?P<a>x)'' ''${a}.txt'' = Inr only_a"
  "NewPathTransformer regexp_Compile ''(?P<a>x)'' ''${a}${'' = Inr open_brace"
  "NewPathTransformer regexp_Compile ''(?P<a>x)'' ''}${a}${'' = Inr stray_brace"
  "NewPathTransformer regexp_Compile ''(?P<a>x)|(?P<b>y)'' ''${a}${b}'' = Inr either"
proof -
  have h: "hasNamedGroup (SubexpNames group_a_x) ''${a}.txt''"
    "hasNamedGroup (SubexpNames group_a_x) ''${a}${''"
    "hasNamedGroup (SubexpNames group_a_x) ''}${a}${''"
    unfolding group_a_x_def SubexpNames_def by code_simp+
  have e: "hasNamedGroup (SubexpNames either_a_b) ''${a}${b}''"
    unfolding either_a_b_def SubexpNames_def by code_simp
  show "NewPathTransformer regexp_Compile ''(?P<a>x)'' ''${a}.txt'' = Inr only_a"
    using h(1) by (simp add: NewPathTransformer_def Compile_group_a_x only_a_def)
  show "NewPathTransformer regexp_Compile ''(?P<a>x)'' ''${a}${'' = Inr open_brace"
    using h(2) by (simp add: NewPathTransformer_def Compile_group_a_x open_brace_def)
  show "NewPathTransformer regexp_Compile ''(?P<a>x)'' ''}${a}${'' = Inr stray_brace"
    using h(3) by (simp add: NewPathTransformer_def Compile_group_a_x stray_brace_def)
  show "NewPathTransformer regexp_Compile ''(?P<a>x)|(?P<b>y)'' ''${a}${b}'' = Inr either"
    using e by (simp add: NewPathTransformer_def Compile_either_a_b either_def)
qed




section \<open>Construction\<close>

text \<open>
  C8. An empty pattern or an empty format string is rejected with \<open>InvalidArguments\<close>,
  whatever the other argument is and whatever the regular expression compiler would say:
  the check comes before the compilation of the pattern and before the check that the
  format string uses a captured name.
\<close>

theorem empty_arguments_rejected:
  "NewPathTransformer Compile [] fmt = Inl InvalidArguments \<and>
   NewPathTransformer Compile pat [] = Inl InvalidArguments"
  by (simp add: NewPathTransformer_def)

text \<open>
  C4. For a non-empty pattern that compiles and a non-empty format string, construction
  succeeds exactly when the format string contains the placeholder of a named group of
  the pattern (a non-empty entry of \<open>SubexpNames\<close>), and then returns the compiled
  pattern with the format string as given; otherwise it fails with \<open>TemplateUnused\<close>.
  A format string that contains no placeholder of any name fails with \<open>TemplateUnused\<close>.
\<close>

theorem format_must_use_a_named_group:
  assumes "pat \<noteq> []" and "fmt \<noteq> []" and "Compile pat = Inr re"
  shows "((\<exists>t. NewPathTransformer Compile pat fmt = Inr t) \<longleftrightarrow>
            (\<exists>g\<in>set (SubexpNames re). g \<noteq> [] \<and> strings_Contains fmt (placeholder g))) \<and>
         ((\<exists>g\<in>set (SubexpNames re). g \<noteq> [] \<and> strings_Contains fmt (placeholder g)) \<longrightarrow>
            NewPathTransformer Compile pat fmt = Inr \<lparr>pattern = re, format = fmt\<rparr>) \<and>
         (\<not> (\<exists>g\<in>set (SubexpNames re). g \<noteq> [] \<and> strings_Contains fmt (placeholder g)) \<longrightarrow>
            NewPathTransformer Compile pat fmt = Inl TemplateUnused) \<and>
         ((\<forall>n. \<not> strings_Contains fmt (placeholder n)) \<longrightarrow>
            NewPathTransformer Compile pat fmt = Inl TemplateUnused)"
  using assms by (auto simp: NewPathTransformer_def hasNamedGroup_iff)

theorem format_must_use_a_named_group_witness:
  "''(?P<a>x)'' \<noteq> [] \<and> ''${a}.txt'' \<noteq> [] \<and> regexp_Compile ''(?P<a>x)'' = Inr group_a_x \<and>
   NewPathTransformer regexp_Compile ''(?P<a>x)'' ''${a}.txt''
     = Inr \<lparr>pattern = group_a_x, format = ''${a}.txt''\<rparr> \<and>
   NewPathTransformer regexp_Compile ''(?P<a>x)'' ''-.txt'' = Inl TemplateUnused"
proof -
  have g: "\<exists>g\<in>set (SubexpNames group_a_x). g \<noteq> [] \<and> strings_Contains ''${a}.txt'' (placeholder g)"
    unfolding group_a_x_def SubexpNames_def by code_simp
  have n: "\<not> (\<exists>g\<in>set (SubexpNames group_a_x). g \<noteq> [] \<and> strings_Contains ''-.txt'' (placeholder g))"
    unfolding group_a_x_def SubexpNames_def by code_simp
  from format_must_use_a_named_group [of "''(?P<a>x)''" "''${a}.txt''" regexp_Compile group_a_x]
    format_must_use_a_named_group [of "''(?P<a>x)''" "''-.txt''" regexp_Compile group_a_x]
    Compile_group_a_x g n
  show ?thesis by simp
qed

section \<open>Application\<close>

text \<open>
  C5. \<open>Transform\<close> fails with \<open>NoMatch\<close> exactly when the library finds no match of the
  pattern in the input, and the error carries the input. The transformer hands the input
  to the library's search as it is: in the model of the library, the search fails exactly
  when the expression matches at no offset of the input, from the first byte to the end,
  so that a match need not begin at the first byte nor reach the last.
\<close>

theorem no_match_exactly_when_search_fails:
  "((\<exists>y. Transform t order x = Inl (NoMatch y)) \<longleftrightarrow> FindStringSubmatch (pattern t) x = None) \<and>
   (FindStringSubmatch (pattern t) x = None \<longleftrightarrow> doExecute (pattern t) x = None) \<and>
   (Transform t order x = Inl (NoMatch y) \<longrightarrow> y = x) \<and>
   (execute r n x = None \<longleftrightarrow> (\<forall>i\<le>length x. step r (i, drop i x, replicate n None) = []))"
proof -
  have a: "(\<exists>y. Transform t order x = Inl (NoMatch y)) \<longleftrightarrow> FindStringSubmatch (pattern t) x = None"
    by (auto simp: Transform_def Let_def split: option.splits sum.splits
          dest: collect_captures_error)
  have b: "Transform t order x = Inl (NoMatch y) \<longrightarrow> y = x"
    by (auto simp: Transform_def Let_def split: option.splits sum.splits if_splits
          dest: collect_captures_error)
  have c: "scan r n k s = None \<longleftrightarrow> (\<forall>i\<le>length s. step r (k + i, drop i s, replicate n None) = [])"
    for k s
  proof (induction s arbitrary: k)
    case Nil
    then show ?case by (simp split: list.splits)
  next
    case (Cons c cs)
    have "(\<forall>i\<le>length (c # cs). step r (k + i, drop i (c # cs), replicate n None) = []) \<longleftrightarrow>
          step r (k, c # cs, replicate n None) = [] \<and>
          (\<forall>i\<le>length cs. step r (Suc k + i, drop i cs, replicate n None) = [])"
      (is "?L \<longleftrightarrow> ?R")
    proof
      assume l: ?L
      have "step r (k + 0, drop 0 (c # cs), replicate n None) = []"
        using l by blast
      moreover have "step r (Suc k + i, drop i cs, replicate n None) = []" if "i \<le> length cs" for i
        using l [rule_format, of "Suc i"] that by simp
      ultimately show ?R by simp
    next
      assume r: ?R
      show ?L
      proof (intro allI impI)
        fix i assume "i \<le> length (c # cs)"
        then show "step r (k + i, drop i (c # cs), replicate n None) = []"
          using r by (cases i) auto
      qed
    qed
    then show ?case using Cons.IH [of "Suc k"] by (simp split: list.splits)
  qed
  from a b c [of 0 x] show ?thesis
    by (simp add: FindStringSubmatch_None execute_def)
qed

theorem no_match_exactly_when_search_fails_witness:
  "Transform only_a id ''abc'' = Inl (NoMatch ''abc'') \<and>
   FindStringSubmatch (pattern only_a) ''abc'' = None \<and>
   doExecute (pattern only_a) ''abc'' = None \<and>
   Transform only_a id ''dir/x'' = Inr ''x.txt'' \<and>
   execute (Group 1 (Lit CHR ''x'')) 2 ''dir/x'' \<noteq> None \<and>
   \<not> (\<forall>i\<le>length ''dir/x''. step (Group 1 (Lit CHR ''x'')) (i, drop i ''dir/x'', replicate 2 None) = [])"
proof -
  have a: "Transform only_a id ''abc'' = Inl (NoMatch ''abc'')"
    by code_simp
  have b: "Transform only_a id ''dir/x'' = Inr ''x.txt''"
    by code_simp
  have c: "execute (Group 1 (Lit CHR ''x'')) 2 ''dir/x'' \<noteq> None"
    by code_simp
  from no_match_exactly_when_search_fails
         [of only_a id "''abc''" "''abc''" "Group 1 (Lit CHR ''x'')" 2]
       no_match_exactly_when_search_fails
         [of only_a id "''dir/x''" "''dir/x''" "Group 1 (Lit CHR ''x'')" 2]
       a b c
  show ?thesis by blast
qed

text \<open>
  C1, as the code has it. When the pattern matches, the map of captures is built, and
  \<open>Transform\<close> fails with \<open>UnresolvedPlaceholder\<close> exactly when the string left by the
  substitution loop contains \<open>${\<close> and contains \<open>}\<close>, wherever the two are: the \<open>}\<close>
  may come before the \<open>${\<close>. So it fails whenever a \<open>${\<close> is followed later by a
  \<open>}\<close>. The error carries the string left by the loop.
\<close>

theorem unresolved_placeholder_exactly_when_both_occur:
  assumes "FindStringSubmatch (pattern t) x = Some m"
  shows "\<exists>caps. collect_captures 0 (SubexpNames (pattern t)) m [] = Inr caps \<and>
           ((\<exists>e. Transform t order x = Inl (UnresolvedPlaceholder e)) \<longleftrightarrow>
              (strings_Contains (substitute (order caps) (format t)) ''${'' \<and>
               strings_Contains (substitute (order caps) (format t)) ''}'')) \<and>
           (placeholder_shaped (substitute (order caps) (format t)) \<longrightarrow>
              Transform t order x = Inl (UnresolvedPlaceholder (substitute (order caps) (format t)))) \<and>
           (\<forall>e. Transform t order x = Inl (UnresolvedPlaceholder e) \<longrightarrow>
              e = substitute (order caps) (format t))"
proof -
  from collect_captures_after_match [OF assms]
  obtain caps where caps: "collect_captures 0 (SubexpNames (pattern t)) m [] = Inr caps"
    by blast
  note tr = Transform_after_match [OF assms caps, of order]
  have shaped: "strings_Contains r ''${'' \<and> strings_Contains r ''}''" if "placeholder_shaped r" for r
  proof -
    from that obtain u v w where r: "r = u @ ''${'' @ v @ ''}'' @ w"
      unfolding placeholder_shaped_iff by blast
    have "sublist ''${'' (u @ ''${'' @ (v @ ''}'' @ w))"
      by (rule sublist_appendI)
    moreover have "CHR ''}'' \<in> set r"
      using r by simp
    ultimately show ?thesis
      using r by (simp add: strings_Contains_def Contains_single [unfolded strings_Contains_def])
  qed
  show ?thesis
    using caps tr shaped [of "substitute (order caps) (format t)"]
    by (intro exI [of _ caps]) auto
qed

theorem unresolved_placeholder_exactly_when_both_occur_witness:
  "FindStringSubmatch (pattern stray_brace) ''x'' = Some [''x'', ''x''] \<and>
   collect_captures 0 (SubexpNames (pattern stray_brace)) [''x'', ''x''] [] = Inr [(''a'', ''x'')] \<and>
   substitute (id [(''a'', ''x'')]) (format stray_brace) = ''}x${'' \<and>
   strings_Contains ''}x${'' ''${'' \<and> strings_Contains ''}x${'' ''}'' \<and>
   (\<exists>e. Transform stray_brace id ''x'' = Inl (UnresolvedPlaceholder e))"
proof -
  have m: "FindStringSubmatch (pattern stray_brace) ''x'' = Some [''x'', ''x'']"
    by code_simp
  have c: "collect_captures 0 (SubexpNames (pattern stray_brace)) [''x'', ''x''] [] = Inr [(''a'', ''x'')]"
    by code_simp
  have s: "substitute (id [(''a'', ''x'')]) (format stray_brace) = ''}x${''"
    by code_simp
  have k: "strings_Contains ''}x${'' ''${'' \<and> strings_Contains ''}x${'' ''}''"
    by code_simp
  from unresolved_placeholder_exactly_when_both_occur [OF m, of id] m c s k
  show ?thesis by auto
qed

text \<open>
  The claim C1 as the specification words it fails: with the pattern \<open>(?P<a>x)\<close> and
  the format string \<open>}${a}${\<close>, the input \<open>x\<close> leaves \<open>}x${\<close> after the substitution,
  where no \<open>${\<close> is followed by a \<open>}\<close>, and \<open>Transform\<close> fails with
  \<open>UnresolvedPlaceholder\<close> all the same.
\<close>

theorem unresolved_placeholder_counterexample:
  "NewPathTransformer regexp_Compile ''(?P<a>x)'' ''}${a}${'' = Inr stray_brace \<and>
   substitute [(''a'', ''x'')] ''}${a}${'' = ''}x${'' \<and>
   Transform stray_brace id ''x'' = Inl (UnresolvedPlaceholder ''}x${'') \<and>
   \<not> placeholder_shaped ''}x${''"
proof -
  have h: "hasNamedGroup (SubexpNames group_a_x) ''}${a}${''"
    unfolding group_a_x_def SubexpNames_def by code_simp
  have n: "NewPathTransformer regexp_Compile ''(?P<a>x)'' ''}${a}${'' = Inr stray_brace"
    using h by (simp add: NewPathTransformer_def Compile_group_a_x stray_brace_def)
  have s: "substitute [(''a'', ''x'')] ''}${a}${'' = ''}x${''"
    by code_simp
  have t: "Transform stray_brace id ''x'' = Inl (UnresolvedPlaceholder ''}x${'')"
    by code_simp
  have p: "\<not> placeholder_shaped ''}x${''"
    by code_simp
  from n s t p show ?thesis by simp
qed

text \<open>
  C10. When the pattern matches and the string left by the substitution loop contains
  \<open>${\<close> but no \<open>}\<close> at all, \<open>Transform\<close> returns that string: a literal \<open>${\<close> can be
  part of a successful result. The error \<open>UnresolvedPlaceholder\<close> is returned only when
  the string contains both \<open>${\<close> and \<open>}\<close>.
\<close>

theorem open_placeholder_without_brace_is_returned:
  assumes "FindStringSubmatch (pattern t) x = Some m"
  shows "\<exists>caps. collect_captures 0 (SubexpNames (pattern t)) m [] = Inr caps \<and>
           (strings_Contains (substitute (order caps) (format t)) ''${'' \<and>
            CHR ''}'' \<notin> set (substitute (order caps) (format t)) \<longrightarrow>
              Transform t order x = Inr (substitute (order caps) (format t))) \<and>
           (\<forall>e. Transform t order x = Inl (UnresolvedPlaceholder e) \<longrightarrow>
              strings_Contains (substitute (order caps) (format t)) ''${'' \<and>
              CHR ''}'' \<in> set (substitute (order caps) (format t)))"
proof -
  from collect_captures_after_match [OF assms]
  obtain caps where caps: "collect_captures 0 (SubexpNames (pattern t)) m [] = Inr caps"
    by blast
  show ?thesis
    using caps Transform_after_match [OF assms caps, of order]
    by (intro exI [of _ caps]) (auto simp: Contains_single)
qed

theorem open_placeholder_without_brace_is_returned_witness:
  "FindStringSubmatch (pattern open_brace) ''x'' = Some [''x'', ''x''] \<and>
   collect_captures 0 (SubexpNames (pattern open_brace)) [''x'', ''x''] [] = Inr [(''a'', ''x'')] \<and>
   substitute (id [(''a'', ''x'')]) (format open_brace) = ''x${'' \<and>
   strings_Contains ''x${'' ''${'' \<and> CHR ''}'' \<notin> set ''x${'' \<and>
   Transform open_brace id ''x'' = Inr ''x${''"
proof -
  have m: "FindStringSubmatch (pattern open_brace) ''x'' = Some [''x'', ''x'']"
    by code_simp
  have c: "collect_captures 0 (SubexpNames (pattern open_brace)) [''x'', ''x''] [] = Inr [(''a'', ''x'')]"
    by code_simp
  have s: "substitute (id [(''a'', ''x'')]) (format open_brace) = ''x${''"
    by code_simp
  have k: "strings_Contains ''x${'' ''${'' \<and> CHR ''}'' \<notin> set ''x${''"
    by code_simp
  from open_placeholder_without_brace_is_returned [OF m, of id] m c s k
  show ?thesis by auto
qed









text \<open>
  C7. The scenario of the test "extract date components": construction succeeds on the
  pattern and the format string, and \<open>Transform\<close> returns
  \<open>2025-apr-10_17-27.TRANSCRIPT\<close> on the input, in whatever order the map of captures
  is iterated. The pattern is compiled and matched by the model of the library.
\<close>

theorem scenario_date_components:
  "\<exists>t. NewPathTransformer regexp_Compile
          (''(?P<month>[^-]+)-(?P<day>[^-]+)-(?P<year>[^-]+)-(?P<hour>[^-]+)-(?P<minute>[^-]+)-(?P<second>[^-]+)-(?P<room>[^/]+)/.*''
             @ CHR 0x5C # ''.TRANSCRIPT$'')
          ''${year}-${month}-${day}_${hour}-${minute}.TRANSCRIPT'' = Inr t \<and>
       (\<forall>order. iteration_order order \<longrightarrow>
          Transform t order ''apr-10-2025-17-27-28-AI_TEAM_OFFICE_ROOM-2/audio_transcript.TRANSCRIPT''
            = Inr ''2025-apr-10_17-27.TRANSCRIPT'')"
proof -
  let ?pat = "''(?P<month>[^-]+)-(?P<day>[^-]+)-(?P<year>[^-]+)-(?P<hour>[^-]+)-(?P<minute>[^-]+)-(?P<second>[^-]+)-(?P<room>[^/]+)/.*''
             @ CHR 0x5C # ''.TRANSCRIPT$''"
  let ?fmt = "''${year}-${month}-${day}_${hour}-${minute}.TRANSCRIPT''"
  let ?input = "''apr-10-2025-17-27-28-AI_TEAM_OFFICE_ROOM-2/audio_transcript.TRANSCRIPT''"
  let ?names = "[''month'', ''day'', ''year'', ''hour'', ''minute'', ''second'', ''room'']"
  let ?m = "[''apr-10-2025-17-27-28-AI_TEAM_OFFICE_ROOM-2/audio_transcript.TRANSCRIPT'',
             ''apr'', ''10'', ''2025'', ''17'', ''27'', ''28'', ''AI_TEAM_OFFICE_ROOM-2'']"
  let ?caps = "[(''month'', ''apr''), (''day'', ''10''), (''year'', ''2025''), (''hour'', ''17''),
                (''minute'', ''27''), (''second'', ''28''), (''room'', ''AI_TEAM_OFFICE_ROOM-2'')]"
  have "case regexp_parse ?pat of
          Inl e \<Rightarrow> False
        | Inr (r, names) \<Rightarrow>
            names = ?names \<and>
            FindStringSubmatch \<lparr>subexpNames = [] # names, doExecute = execute r (Suc (length names))\<rparr> ?input
              = Some ?m"
    by code_simp
  then obtain r where r: "regexp_parse ?pat = Inr (r, ?names)"
    and f: "FindStringSubmatch \<lparr>subexpNames = [] # ?names, doExecute = execute r (Suc (length ?names))\<rparr> ?input
              = Some ?m"
    by (cases "regexp_parse ?pat") (auto split: prod.splits)
  define t where "t = \<lparr>pattern = \<lparr>subexpNames = [] # ?names, doExecute = execute r (Suc (length ?names))\<rparr>,
                         format = ?fmt\<rparr>"
  have c: "regexp_Compile ?pat = Inr (pattern t)"
    using r by (simp add: regexp_Compile_def t_def)
  have h: "hasNamedGroup ([] # ?names) ?fmt"
    by code_simp
  have new: "NewPathTransformer regexp_Compile ?pat ?fmt = Inr t"
    using c h by (simp add: NewPathTransformer_def t_def SubexpNames_def)
  have m: "FindStringSubmatch (pattern t) ?input = Some ?m"
    using f by (simp add: t_def)
  have plain: "\<forall>n\<in>set ([] # ?names). plain_name n"
    by code_simp
  then have names: "\<forall>n\<in>set (SubexpNames (pattern t)). plain_name n"
    by (simp add: t_def SubexpNames_def)
  have vals: "\<forall>v\<in>set ?m. CHR ''$'' \<notin> set v"
    by code_simp
  have "dollars_closed False ?fmt"
    by code_simp
  then have closed: "dollars_closed False (format t)"
    by (simp add: t_def)
  have "collect_captures 0 ([] # ?names) ?m [] = Inr ?caps"
    by code_simp
  then have caps: "collect_captures 0 (SubexpNames (pattern t)) ?m [] = Inr ?caps"
    by (simp add: t_def SubexpNames_def)
  have s: "substitute ?caps ?fmt = ''2025-apr-10_17-27.TRANSCRIPT''"
    by code_simp
  have k: "\<not> strings_Contains ''2025-apr-10_17-27.TRANSCRIPT'' ''${''"
    by code_simp
  have "format t = ?fmt"
    by (simp add: t_def)
  with s k have i: "Transform t id ?input = Inr ''2025-apr-10_17-27.TRANSCRIPT''"
    by (simp add: Transform_after_match [OF m caps])
  have "Transform t order ?input = Inr ''2025-apr-10_17-27.TRANSCRIPT''"
    if "iteration_order order" for order
    using Transform_any_order [OF m names vals closed that] i by simp
  with new show ?thesis by blast
qed

theorem scenario_date_components_witness:
  "iteration_order id \<and>
   (\<exists>t. NewPathTransformer regexp_Compile
          (''(?P<month>[^-]+)-(?P<day>[^-]+)-(?P<year>[^-]+)-(?P<hour>[^-]+)-(?P<minute>[^-]+)-(?P<second>[^-]+)-(?P<room>[^/]+)/.*''
             @ CHR 0x5C # ''.TRANSCRIPT$'')
          ''${year}-${month}-${day}_${hour}-${minute}.TRANSCRIPT'' = Inr t \<and>
        Transform t id ''apr-10-2025-17-27-28-AI_TEAM_OFFICE_ROOM-2/audio_transcript.TRANSCRIPT''
          = Inr ''2025-apr-10_17-27.TRANSCRIPT'')"
  using scenario_date_components iteration_order_id by blast

section \<open>The loop of the caller\<close>

lemma transform_loop_length: "length (transform_loop t order i files) = length files"
proof (induction t order i files rule: transform_loop.induct)
  case (1 t order i files)
  show ?case
  proof (cases "i < length files")
    case False
    then show ?thesis by (subst transform_loop.simps) simp
  next
    case True
    show ?thesis
    proof (cases "Transform t (order i) (Path (files ! i))")
      case (Inl err)
      with True "1.IH"(1) show ?thesis by (subst transform_loop.simps) simp
    next
      case (Inr newPath)
      with True "1.IH"(2) show ?thesis by (subst transform_loop.simps) simp
    qed
  qed
qed

lemma transform_loop_nth:
  "j < length files \<Longrightarrow>
   transform_loop t order i files ! j =
     (if j < i then files ! j
      else case Transform t (order j) (Path (files ! j)) of
             Inl err \<Rightarrow> files ! j
           | Inr newPath \<Rightarrow> (files ! j)\<lparr>Path := newPath\<rparr>)"
proof (induction t order i files rule: transform_loop.induct)
  case (1 t order i files)
  show ?case
  proof (cases "i < length files")
    case False
    with "1.prems" show ?thesis by (subst transform_loop.simps) simp
  next
    case True
    show ?thesis
    proof (cases "Transform t (order i) (Path (files ! i))")
      case (Inl err)
      have "transform_loop t order i files = transform_loop t order (Suc i) files"
        using True Inl by (subst transform_loop.simps) simp
      with "1.IH"(1) [OF True Inl "1.prems"] Inl show ?thesis
        by (cases "j = i") (auto simp: less_Suc_eq)
    next
      case (Inr newPath)
      let ?files = "files[i := (files ! i)\<lparr>Path := newPath\<rparr>]"
      have "transform_loop t order i files = transform_loop t order (Suc i) ?files"
        using True Inr by (subst transform_loop.simps) simp
      moreover have "j < length ?files"
        using "1.prems" by simp
      ultimately show ?thesis
        using "1.IH"(2) [OF True Inr] Inr True
        by (cases "j = i") (auto simp: less_Suc_eq split: sum.splits)
    qed
  qed
qed

text \<open>
  C9. The loop of the caller visits every file: the list keeps its length, a file
  whose call of \<open>Transform\<close> fails is left as it was, and a file whose call succeeds has
  its path, and nothing else, replaced by the result. An error on one file has no effect
  on the files after it.
\<close>

theorem transform_error_keeps_original_path:
  "length (transform_file_paths (Some t) order files) = length files \<and>
   (\<forall>i<length files.
      transform_file_paths (Some t) order files ! i =
        (case Transform t (order i) (Path (files ! i)) of
           Inl err \<Rightarrow> files ! i
         | Inr newPath \<Rightarrow> (files ! i)\<lparr>Path := newPath\<rparr>))"
  by (simp add: transform_file_paths_def transform_loop_length transform_loop_nth)

theorem transform_error_keeps_original_path_witness:
  "length (transform_file_paths (Some only_a) (\<lambda>i. id)
      [\<lparr>ID = ''1'', Name = ''abc'', Path = ''abc'', MimeType = ''text/plain'', ModifiedTime = ''2025''\<rparr>,
       \<lparr>ID = ''2'', Name = ''x'', Path = ''dir/x'', MimeType = ''text/plain'', ModifiedTime = ''2024''\<rparr>]) = 2 \<and>
   transform_file_paths (Some only_a) (\<lambda>i. id)
      [\<lparr>ID = ''1'', Name = ''abc'', Path = ''abc'', MimeType = ''text/plain'', ModifiedTime = ''2025''\<rparr>,
       \<lparr>ID = ''2'', Name = ''x'', Path = ''dir/x'', MimeType = ''text/plain'', ModifiedTime = ''2024''\<rparr>] ! 0
     = \<lparr>ID = ''1'', Name = ''abc'', Path = ''abc'', MimeType = ''text/plain'', ModifiedTime = ''2025''\<rparr> \<and>
   transform_file_paths (Some only_a) (\<lambda>i. id)
      [\<lparr>ID = ''1'', Name = ''abc'', Path = ''abc'', MimeType = ''text/plain'', ModifiedTime = ''2025''\<rparr>,
       \<lparr>ID = ''2'', Name = ''x'', Path = ''dir/x'', MimeType = ''text/plain'', ModifiedTime = ''2024''\<rparr>] ! 1
     = \<lparr>ID = ''2'', Name = ''x'', Path = ''x.txt'', MimeType = ''text/plain'', ModifiedTime = ''2024''\<rparr>"
proof -
  have a: "Transform only_a id ''abc'' = Inl (NoMatch ''abc'')"
    by code_simp
  have b: "Transform only_a id ''dir/x'' = Inr ''x.txt''"
    by code_simp
  from transform_error_keeps_original_path [of only_a "\<lambda>i. id"
      "[\<lparr>ID = ''1'', Name = ''abc'', Path = ''abc'', MimeType = ''text/plain'', ModifiedTime = ''2025''\<rparr>,
        \<lparr>ID = ''2'', Name = ''x'', Path = ''dir/x'', MimeType = ''text/plain'', ModifiedTime = ''2024''\<rparr>]"]
    a b
  show ?thesis by (simp add: All_less_Suc)
qed


end
